theory Spec2Isabelle
  imports Complex_Main "HOL-Library.Char_ord" "HOL-Library.List_Lexorder"
begin

section \<open>The priority queue (class PriorityQueue of rpg-syntax.ts)\<close>

text \<open>
  The private field \<open>heap\<close> is an array of objects \<open>{ value, priority }\<close>. A priority is
  a JavaScript number; it is modelled as a real, which leaves NaN out (the comparator
  \<open>b.priority - a.priority\<close> has the sign of the comparison of the two priorities on
  every other pair of numbers).
\<close>

record 'a entry =
  entry_value :: 'a
  priority :: real

record 'a PriorityQueue =
  heap :: "'a entry list"

definition new_queue :: "'a PriorityQueue" where
  "new_queue = \<lparr>heap = []\<rparr>"

text \<open>The comparator handed to \<open>sort\<close> in \<open>enqueue\<close>: \<open>(a, b) => b.priority - a.priority\<close>.\<close>

definition by_priority :: "'a entry \<Rightarrow> 'a entry \<Rightarrow> real" where
  "by_priority a b = priority b - priority a"

text \<open>
  \<open>Array.prototype.sort\<close> with a comparator: the result is sorted by the comparator and
  the sort is stable, which fixes the result for a consistent comparator. It is computed
  here by insertion from the right end: an element goes in front of the first later
  element that the comparator does not put before it.
\<close>

fun insert_by :: "('a \<Rightarrow> 'a \<Rightarrow> real) \<Rightarrow> 'a \<Rightarrow> 'a list \<Rightarrow> 'a list" where
  "insert_by cmp x [] = [x]"
| "insert_by cmp x (y # ys) = (if cmp x y \<le> 0 then x # y # ys else y # insert_by cmp x ys)"

definition sort_by :: "('a \<Rightarrow> 'a \<Rightarrow> real) \<Rightarrow> 'a list \<Rightarrow> 'a list" where
  "sort_by cmp xs = foldr (insert_by cmp) xs []"

text \<open>\<open>enqueue\<close>: push the new entry at the end, then sort the whole array.\<close>

definition enqueue :: "'a \<Rightarrow> real \<Rightarrow> 'a PriorityQueue \<Rightarrow> 'a PriorityQueue" where
  "enqueue v p q =
     q\<lparr>heap := sort_by by_priority (heap q @ [\<lparr>entry_value = v, priority = p\<rparr>])\<rparr>"

text \<open>
  \<open>dequeue\<close>: \<open>this.heap.shift()?.value\<close>. \<open>shift\<close> removes and returns the first element,
  and returns \<open>undefined\<close> (here \<open>None\<close>) on an empty array, which it leaves as it is.
\<close>

definition dequeue :: "'a PriorityQueue \<Rightarrow> 'a option \<times> 'a PriorityQueue" where
  "dequeue q = (case heap q of
      [] \<Rightarrow> (None, q)
    | e # es \<Rightarrow> (Some (entry_value e), q\<lparr>heap := es\<rparr>))"

text \<open>A client's calls on one queue, in order; the results of the dequeues are dropped.\<close>

datatype 'a queue_op = Enqueue 'a real | Dequeue

fun apply_op :: "'a PriorityQueue \<Rightarrow> 'a queue_op \<Rightarrow> 'a PriorityQueue" where
  "apply_op q (Enqueue v p) = enqueue v p q"
| "apply_op q Dequeue = snd (dequeue q)"

definition run_ops :: "'a queue_op list \<Rightarrow> 'a PriorityQueue" where
  "run_ops ops = foldl apply_op new_queue ops"

section \<open>The binary search tree (classes BSTNode and Inventory)\<close>

datatype Rarity = Common | Uncommon | Rare | Legendary

text \<open>
  A name is a string, compared by \<open><\<close> and \<open>===\<close>: the lexicographic order on the
  character codes.
\<close>

record Item =
  name :: string
  rarity :: Rarity

text \<open>
  Nodes are mutable objects that \<open>insertNode\<close> updates in place, so they live in a store:
  the list of all nodes allocated so far, a reference being an index into it and \<open>null\<close>
  being \<open>None\<close>. \<open>new BSTNode(value)\<close> appends a node with both children \<open>null\<close>.
\<close>

record BSTNode =
  node_value :: Item
  left :: "nat option"
  right :: "nat option"

definition new_BSTNode :: "Item \<Rightarrow> BSTNode" where
  "new_BSTNode v = \<lparr>node_value = v, left = None, right = None\<rparr>"

record Inventory =
  store :: "BSTNode list"
  root :: "nat option"

definition new_inventory :: Inventory where
  "new_inventory = \<lparr>store = [], root = None\<rparr>"

text \<open>
  \<open>insertNode\<close> returns the store after the call and the reference it returns. The value
  of the assignment expression \<open>node.left = insertNode(node.left, value)\<close> is the assigned
  value, and that is what \<open>return\<close> hands back. A reference outside the store does not
  occur in the program; the model gives no result (\<open>None\<close>) there, as it does when the
  recursion does not end.
\<close>

partial_function (option) insertNode ::
  "BSTNode list \<Rightarrow> nat option \<Rightarrow> Item \<Rightarrow> (BSTNode list \<times> nat) option" where
  "insertNode h node v = (case node of
      None \<Rightarrow> Some (h @ [new_BSTNode v], length h)
    | Some a \<Rightarrow>
        if length h \<le> a then None
        else if name v < name (node_value (h ! a))
        then Option.bind (insertNode h (left (h ! a)) v)
               (\<lambda>(h', r). Some (h'[a := (h' ! a)\<lparr>left := Some r\<rparr>], r))
        else Option.bind (insertNode h (right (h ! a)) v)
               (\<lambda>(h', r). Some (h'[a := (h' ! a)\<lparr>right := Some r\<rparr>], r)))"

declare insertNode.simps [code]

text \<open>\<open>insert\<close>: \<open>this.root = insertNode(this.root, item)\<close>.\<close>

definition insert_item :: "Inventory \<Rightarrow> Item \<Rightarrow> Inventory option" where
  "insert_item t item =
     Option.bind (insertNode (store t) (root t) item)
       (\<lambda>(h', r). Some \<lparr>store = h', root = Some r\<rparr>)"

text \<open>
  \<open>traverseInOrder\<close>: the result is the sequence of nodes the callback is called with,
  the callback being one that leaves the tree alone.
\<close>

partial_function (option) traverseInOrder ::
  "BSTNode list \<Rightarrow> nat option \<Rightarrow> nat list option" where
  "traverseInOrder h node = (case node of
      None \<Rightarrow> Some []
    | Some a \<Rightarrow>
        if length h \<le> a then None
        else Option.bind (traverseInOrder h (left (h ! a))) (\<lambda>ls.
             Option.bind (traverseInOrder h (right (h ! a))) (\<lambda>rs.
             Some (ls @ [a] @ rs))))"

declare traverseInOrder.simps [code]

partial_function (option) searchNode ::
  "BSTNode list \<Rightarrow> nat option \<Rightarrow> string \<Rightarrow> nat option option" where
  "searchNode h node n = (case node of
      None \<Rightarrow> Some None
    | Some a \<Rightarrow>
        if length h \<le> a then None
        else if n = name (node_value (h ! a)) then Some (Some a)
        else if n < name (node_value (h ! a)) then searchNode h (left (h ! a)) n
        else searchNode h (right (h ! a)) n)"

declare searchNode.simps [code]

text \<open>
  \<open>searchItem\<close>: \<open>searchNode(this.root, name)?.value || null\<close>; an Item is an object, so
  \<open>||\<close> replaces only the \<open>undefined\<close> of a \<open>null\<close> node.
\<close>

definition searchItem :: "Inventory \<Rightarrow> string \<Rightarrow> Item option option" where
  "searchItem t n =
     map_option (map_option (\<lambda>a. node_value (store t ! a))) (searchNode (store t) (root t) n)"

text \<open>A client's calls of \<open>insert\<close> on one inventory, in order.\<close>

fun insert_all :: "Inventory \<Rightarrow> Item list \<Rightarrow> Inventory option" where
  "insert_all t [] = Some t"
| "insert_all t (i # is) = Option.bind (insert_item t i) (\<lambda>t'. insert_all t' is)"

text \<open>The names of a sequence of visited nodes.\<close>

definition names_of :: "BSTNode list \<Rightarrow> nat list \<Rightarrow> string list" where
  "names_of h as = map (\<lambda>a. name (node_value (h ! a))) as"

definition items_of :: "BSTNode list \<Rightarrow> nat list \<Rightarrow> Item list" where
  "items_of h as = map (\<lambda>a. node_value (h ! a)) as"

section \<open>Predicates of the specification\<close>

subsection \<open>Queue\<close>

text \<open>An entry array in non-increasing order of priority.\<close>

definition descending :: "'a entry list \<Rightarrow> bool" where
  "descending xs = sorted_wrt (\<lambda>a b. priority b \<le> priority a) xs"

text \<open>
  An entry put behind every entry of \<open>xs\<close> whose priority is at least its own and in front
  of every entry of lower priority, the entries of \<open>xs\<close> keeping their order.
\<close>

definition placed :: "'a entry \<Rightarrow> 'a entry list \<Rightarrow> 'a entry list" where
  "placed e xs = filter (\<lambda>x. priority e \<le> priority x) xs @ [e] @ filter (\<lambda>x. priority x < priority e) xs"

subsection \<open>Tree\<close>

text \<open>
  \<open>tree_at h node\<close>: the references of the store \<open>h\<close> that start at \<open>node\<close> stay in the
  store and end in \<open>null\<close> after finitely many steps. \<open>reach h node b\<close>: the node \<open>b\<close> is
  \<open>node\<close> or below it. \<open>bst_ordered\<close> is the ordering invariant of the specification and
  \<open>single_leaf t i\<close> says that the root of \<open>t\<close> is a node without children that holds \<open>i\<close>.
\<close>

inductive tree_at :: "BSTNode list \<Rightarrow> nat option \<Rightarrow> bool" where
  tree_null: "tree_at h None"
| tree_node: "a < length h \<Longrightarrow> tree_at h (left (h ! a)) \<Longrightarrow> tree_at h (right (h ! a))
              \<Longrightarrow> tree_at h (Some a)"

inductive reach :: "BSTNode list \<Rightarrow> nat option \<Rightarrow> nat \<Rightarrow> bool" where
  reach_here: "a < length h \<Longrightarrow> reach h (Some a) a"
| reach_left: "a < length h \<Longrightarrow> reach h (left (h ! a)) b \<Longrightarrow> reach h (Some a) b"
| reach_right: "a < length h \<Longrightarrow> reach h (right (h ! a)) b \<Longrightarrow> reach h (Some a) b"

definition key :: "BSTNode list \<Rightarrow> nat \<Rightarrow> string" where
  "key h a = name (node_value (h ! a))"

definition bst_ordered :: "BSTNode list \<Rightarrow> nat option \<Rightarrow> bool" where
  "bst_ordered h r \<longleftrightarrow>
     (\<forall>a. reach h r a \<longrightarrow>
        (\<forall>b. reach h (left (h ! a)) b \<longrightarrow> key h b < key h a) \<and>
        (\<forall>b. reach h (right (h ! a)) b \<longrightarrow> key h a \<le> key h b))"

definition single_leaf :: "Inventory \<Rightarrow> Item \<Rightarrow> bool" where
  "single_leaf t i \<longleftrightarrow>
     (\<exists>a. root t = Some a \<and> a < length (store t) \<and> store t ! a = new_BSTNode i)"

text \<open>A tree of two nodes that was not built by \<open>insert\<close>: \<open>b\<close> at the root, \<open>a\<close> to its left.\<close>

definition two_nodes :: Inventory where
  "two_nodes = \<lparr>store = [\<lparr>node_value = \<lparr>name = ''b'', rarity = Rare\<rparr>, left = Some 1, right = None\<rparr>,
                         \<lparr>node_value = \<lparr>name = ''a'', rarity = Common\<rparr>, left = None, right = None\<rparr>],
                root = Some 0\<rparr>"

text \<open>An item, and the calls and entries of a sequence of enqueues.\<close>

definition item_named :: "string \<Rightarrow> Rarity \<Rightarrow> Item" where
  "item_named n r = \<lparr>name = n, rarity = r\<rparr>"

definition enqueue_each :: "('a \<times> real) list \<Rightarrow> 'a queue_op list" where
  "enqueue_each xs = map (\<lambda>(v, p). Enqueue v p) xs"

definition entries_of :: "('a \<times> real) list \<Rightarrow> 'a entry list" where
  "entries_of xs = map (\<lambda>(v, p). \<lparr>entry_value = v, priority = p\<rparr>) xs"

section \<open>Facts about the queue\<close>

text \<open>
  On every array \<open>sort_by by_priority\<close> gives a result in non-increasing order of priority
  in which the entries of each priority keep their order: the stable sorted arrangement,
  the one that \<open>sort\<close> is specified to give.
\<close>

lemma set_insert_by: "set (insert_by cmp x ys) = insert x (set ys)"
  by (induction ys) auto

lemma descending_insert_by:
  "descending ys \<Longrightarrow> descending (insert_by by_priority x ys)"
  by (induction ys) (auto simp: descending_def by_priority_def set_insert_by)

lemma sort_by_descending: "descending (sort_by by_priority xs)"
proof (induction xs)
  case Nil
  show ?case by (simp add: sort_by_def descending_def)
next
  case (Cons x xs)
  then show ?case using descending_insert_by[of "sort_by by_priority xs" x] by (simp add: sort_by_def)
qed

lemma filter_insert_by:
  "filter (\<lambda>z. priority z = k) (insert_by by_priority x ys) = filter (\<lambda>z. priority z = k) (x # ys)"
  by (induction ys) (auto simp: by_priority_def)

lemma sort_by_stable:
  "filter (\<lambda>z. priority z = k) (sort_by by_priority xs) = filter (\<lambda>z. priority z = k) xs"
proof (induction xs)
  case Nil
  show ?case by (simp add: sort_by_def)
next
  case (Cons x xs)
  have "sort_by by_priority (x # xs) = insert_by by_priority x (sort_by by_priority xs)"
    by (simp add: sort_by_def)
  then show ?case using Cons.IH by (simp add: filter_insert_by)
qed

lemma insert_by_front:
  "\<forall>y\<in>set xs. priority y \<le> priority x \<Longrightarrow> insert_by by_priority x xs = x # xs"
  by (cases xs) (simp_all add: by_priority_def)

lemma sort_by_snoc: "sort_by cmp (xs @ [e]) = foldr (insert_by cmp) xs [e]"
  by (simp add: sort_by_def)

lemma foldr_insert_placed:
  "descending xs \<Longrightarrow> foldr (insert_by by_priority) xs [e] = placed e xs"
proof (induction xs)
  case Nil
  show ?case by (simp add: placed_def)
next
  case (Cons x xs)
  then have d: "descending xs" and le: "\<forall>y\<in>set xs. priority y \<le> priority x"
    by (auto simp: descending_def)
  have ih: "foldr (insert_by by_priority) xs [e] = placed e xs" using Cons.IH d by simp
  show ?case
  proof (cases "priority e \<le> priority x")
    case True
    have "\<forall>y\<in>set (placed e xs). priority y \<le> priority x"
      using le True by (auto simp: placed_def)
    then have "insert_by by_priority x (placed e xs) = x # placed e xs"
      by (rule insert_by_front)
    then show ?thesis using True ih by (simp add: placed_def)
  next
    case False
    then have lt: "priority x < priority e" by simp
    have all: "\<forall>y\<in>set xs. priority y < priority e" using le lt by auto
    have f1: "filter (\<lambda>x. priority e \<le> priority x) xs = []" using all by (auto simp: filter_empty_conv)
    have f2: "filter (\<lambda>x. priority x < priority e) xs = xs" using all by (simp add: filter_id_conv)
    have p: "placed e xs = e # xs" by (simp add: placed_def f1 f2)
    have "insert_by by_priority x (e # xs) = e # x # xs"
      using lt insert_by_front[OF le] by (simp add: by_priority_def)
    then show ?thesis using lt ih p f1 f2 by (simp add: placed_def)
  qed
qed

lemma descending_placed: "descending xs \<Longrightarrow> descending (placed e xs)"
  by (induction xs) (auto simp: descending_def placed_def sorted_wrt_append)

lemma heap_enqueue:
  "descending (heap q) \<Longrightarrow> heap (enqueue v p q) = placed \<lparr>entry_value = v, priority = p\<rparr> (heap q)"
  by (simp add: enqueue_def sort_by_snoc foldr_insert_placed)

lemma descending_apply_op: "descending (heap q) \<Longrightarrow> descending (heap (apply_op q op))"
proof (cases op)
  case (Enqueue v p)
  assume "descending (heap q)"
  then show ?thesis using Enqueue by (simp add: heap_enqueue descending_placed)
next
  case Dequeue
  assume "descending (heap q)"
  then show ?thesis using Dequeue by (cases "heap q") (simp_all add: dequeue_def descending_def)
qed

lemma descending_run_ops: "descending (heap (run_ops ops))"
proof (induction ops rule: rev_induct)
  case Nil
  show ?case by (simp add: run_ops_def new_queue_def descending_def)
next
  case (snoc op ops)
  then show ?case using descending_apply_op[of "run_ops ops" op] by (simp add: run_ops_def)
qed

lemma descending_filter_id:
  "descending xs \<Longrightarrow> filter (\<lambda>x. p \<le> priority x) xs @ filter (\<lambda>x. priority x < p) xs = xs"
proof (induction xs)
  case Nil show ?case by simp
next
  case (Cons x xs)
  then have d: "descending xs" and le: "\<forall>y\<in>set xs. priority y \<le> priority x"
    by (auto simp: descending_def)
  show ?case
  proof (cases "p \<le> priority x")
    case True then show ?thesis using Cons.IH d by simp
  next
    case False
    then have all: "\<forall>y\<in>set xs. priority y < p" using le by auto
    have f1: "filter (\<lambda>x. p \<le> priority x) xs = []" using all by (auto simp: filter_empty_conv)
    have f2: "filter (\<lambda>x. priority x < p) xs = xs" using all by (simp add: filter_id_conv)
    show ?thesis using False f1 f2 by simp
  qed
qed

lemma filter_placed:
  assumes "descending xs"
  shows "filter (\<lambda>x. priority x = k) (placed e xs) = filter (\<lambda>x. priority x = k) (xs @ [e])"
proof -
  have "filter (\<lambda>x. priority x = k) (filter (\<lambda>x. priority e \<le> priority x) xs)
          @ filter (\<lambda>x. priority x = k) (filter (\<lambda>x. priority x < priority e) xs)
        = filter (\<lambda>x. priority x = k) xs"
    using descending_filter_id[OF assms, of "priority e"]
    by (metis filter_append)
  moreover have "filter (\<lambda>x. priority x = k) (filter (\<lambda>x. priority x < priority e) xs) = []"
    if "k = priority e" using that by (auto simp: filter_empty_conv)
  ultimately show ?thesis by (cases "k = priority e") (auto simp: placed_def)
qed

lemma ties_in_insertion_order:
  "filter (\<lambda>x. priority x = k) (heap (run_ops (enqueue_each xs)))
     = filter (\<lambda>x. priority x = k) (entries_of xs)"
proof (induction xs rule: rev_induct)
  case Nil
  show ?case by (simp add: run_ops_def new_queue_def enqueue_each_def entries_of_def)
next
  case (snoc x xs)
  obtain v p where x: "x = (v, p)" by (cases x)
  have r: "run_ops (enqueue_each (xs @ [x])) = enqueue v p (run_ops (enqueue_each xs))"
    by (simp add: run_ops_def enqueue_each_def x)
  have "heap (run_ops (enqueue_each (xs @ [x])))
          = placed \<lparr>entry_value = v, priority = p\<rparr> (heap (run_ops (enqueue_each xs)))"
    unfolding r by (rule heap_enqueue[OF descending_run_ops])
  then show ?case
    using filter_placed[OF descending_run_ops, of k "\<lparr>entry_value = v, priority = p\<rparr>" "enqueue_each xs"]
      snoc.IH by (simp add: entries_of_def x)
qed

section \<open>Facts about the tree\<close>

lemma insertNode_null: "insertNode h None v = Some (h @ [new_BSTNode v], length h)"
  by (subst insertNode.simps) simp

lemma insertNode_node:
  "a < length h \<Longrightarrow> insertNode h (Some a) v =
     (if name v < name (node_value (h ! a))
        then Option.bind (insertNode h (left (h ! a)) v)
               (\<lambda>(h', r). Some (h'[a := (h' ! a)\<lparr>left := Some r\<rparr>], r))
        else Option.bind (insertNode h (right (h ! a)) v)
               (\<lambda>(h', r). Some (h'[a := (h' ! a)\<lparr>right := Some r\<rparr>], r)))"
  by (subst insertNode.simps) simp

lemma insertNode_tree:
  "tree_at h node \<Longrightarrow>
     \<exists>h'. insertNode h node v = Some (h', length h) \<and> length h' = Suc (length h)
          \<and> h' ! length h = new_BSTNode v"
proof (induction rule: tree_at.induct)
  case (tree_null h)
  show ?case by (simp add: insertNode_null)
next
  case (tree_node a h)
  show ?case
  proof (cases "name v < name (node_value (h ! a))")
    case True
    from tree_node.IH(1) obtain h1 where
      h1: "insertNode h (left (h ! a)) v = Some (h1, length h)"
          "length h1 = Suc (length h)" "h1 ! length h = new_BSTNode v" by blast
    show ?thesis using True h1 tree_node.hyps(1) by (simp add: insertNode_node)
  next
    case False
    from tree_node.IH(2) obtain h1 where
      h1: "insertNode h (right (h ! a)) v = Some (h1, length h)"
          "length h1 = Suc (length h)" "h1 ! length h = new_BSTNode v" by blast
    show ?thesis using False h1 tree_node.hyps(1) by (simp add: insertNode_node)
  qed
qed

lemma insert_item_tree:
  assumes "tree_at (store t) (root t)"
  shows "\<exists>t'. insert_item t item = Some t' \<and> root t' = Some (length (store t))
           \<and> length (store t') = Suc (length (store t))
           \<and> store t' ! length (store t) = new_BSTNode item"
proof -
  from insertNode_tree[OF assms, of item] obtain h' where
    "insertNode (store t) (root t) item = Some (h', length (store t))"
    "length h' = Suc (length (store t))" "h' ! length (store t) = new_BSTNode item" by blast
  then show ?thesis by (simp add: insert_item_def)
qed

lemma single_leaf_tree: "single_leaf t i \<Longrightarrow> tree_at (store t) (root t)"
  by (auto simp: single_leaf_def new_BSTNode_def intro!: tree_at.intros)

lemma insert_item_single:
  assumes "tree_at (store t) (root t)"
  shows "\<exists>t'. insert_item t item = Some t' \<and> single_leaf t' item"
  using insert_item_tree[OF assms, of item] by (auto simp: single_leaf_def)

lemma insert_all_single:
  "tree_at (store t) (root t) \<Longrightarrow> items \<noteq> [] \<Longrightarrow>
     \<exists>t'. insert_all t items = Some t' \<and> single_leaf t' (last items)"
proof (induction items arbitrary: t)
  case Nil
  then show ?case by simp
next
  case (Cons i items)
  from insert_item_single[OF Cons.prems(1), of i] obtain t1 where
    t1: "insert_item t i = Some t1" "single_leaf t1 i" by blast
  show ?case
  proof (cases "items = []")
    case True
    then show ?thesis using t1 by simp
  next
    case False
    from Cons.IH[OF single_leaf_tree[OF t1(2)] False] show ?thesis using t1 False by simp
  qed
qed

lemma traverse_null: "traverseInOrder h None = Some []"
  by (subst traverseInOrder.simps) simp

lemma traverse_node:
  "a < length h \<Longrightarrow> traverseInOrder h (Some a) =
     Option.bind (traverseInOrder h (left (h ! a))) (\<lambda>ls.
     Option.bind (traverseInOrder h (right (h ! a))) (\<lambda>rs. Some (ls @ [a] @ rs)))"
  by (subst traverseInOrder.simps) simp

lemma traverse_single:
  "single_leaf t i \<Longrightarrow> \<exists>a. traverseInOrder (store t) (root t) = Some [a] \<and> store t ! a = new_BSTNode i
      \<and> root t = Some a"
  unfolding single_leaf_def
  by (subst traverseInOrder.simps) (auto simp: traverse_null new_BSTNode_def)

lemma reach_null: "\<not> reach h None b"
  by (auto elim: reach.cases)

lemma reach_single:
  "single_leaf t i \<Longrightarrow> root t = Some a \<Longrightarrow> reach (store t) (root t) b \<longleftrightarrow> b = a"
  by (auto simp: single_leaf_def new_BSTNode_def reach_null intro: reach.intros elim: reach.cases)

lemma searchNode_null: "searchNode h None n = Some None"
  by (subst searchNode.simps) simp

lemma searchNode_node:
  "a < length h \<Longrightarrow> searchNode h (Some a) n =
     (if n = name (node_value (h ! a)) then Some (Some a)
      else if n < name (node_value (h ! a)) then searchNode h (left (h ! a)) n
      else searchNode h (right (h ! a)) n)"
  by (subst searchNode.simps) simp

lemma searchNode_tree:
  "tree_at h node \<Longrightarrow>
     \<exists>r. searchNode h node n = Some r \<and> (\<forall>a. r = Some a \<longrightarrow> reach h node a \<and> key h a = n)"
proof (induction rule: tree_at.induct)
  case (tree_null h)
  show ?case by (simp add: searchNode_null)
next
  case (tree_node a h)
  note lt = tree_node.hyps(1)
  consider (eq) "n = name (node_value (h ! a))"
    | (less) "n \<noteq> name (node_value (h ! a))" "n < name (node_value (h ! a))"
    | (more) "n \<noteq> name (node_value (h ! a))" "\<not> n < name (node_value (h ! a))" by blast
  then show ?case
  proof cases
    case eq
    then show ?thesis using lt by (simp add: searchNode_node key_def reach_here)
  next
    case less
    from tree_node.IH(1) obtain r where
      r: "searchNode h (left (h ! a)) n = Some r"
         "\<forall>b. r = Some b \<longrightarrow> reach h (left (h ! a)) b \<and> key h b = n" by blast
    have "\<forall>b. r = Some b \<longrightarrow> reach h (Some a) b \<and> key h b = n"
      using r(2) lt by (blast intro: reach_left)
    then show ?thesis using less lt r(1) by (simp add: searchNode_node)
  next
    case more
    from tree_node.IH(2) obtain r where
      r: "searchNode h (right (h ! a)) n = Some r"
         "\<forall>b. r = Some b \<longrightarrow> reach h (right (h ! a)) b \<and> key h b = n" by blast
    have "\<forall>b. r = Some b \<longrightarrow> reach h (Some a) b \<and> key h b = n"
      using r(2) lt by (blast intro: reach_right)
    then show ?thesis using more lt r(1) by (simp add: searchNode_node)
  qed
qed

lemma searchNode_absent:
  "tree_at h node \<Longrightarrow> \<forall>a. reach h node a \<longrightarrow> key h a \<noteq> n \<Longrightarrow> searchNode h node n = Some None"
proof (induction rule: tree_at.induct)
  case (tree_null h)
  show ?case by (simp add: searchNode_null)
next
  case (tree_node a h)
  have here: "n \<noteq> name (node_value (h ! a))"
    using tree_node.prems tree_node.hyps(1) by (auto simp: key_def intro: reach.intros)
  have l: "searchNode h (left (h ! a)) n = Some None"
    using tree_node.prems tree_node.hyps(1) by (intro tree_node.IH(1)) (auto intro: reach.intros)
  have r: "searchNode h (right (h ! a)) n = Some None"
    using tree_node.prems tree_node.hyps(1) by (intro tree_node.IH(2)) (auto intro: reach.intros)
  show ?case using here l r tree_node.hyps(1) by (simp add: searchNode_node)
qed

lemma tree_new_inventory: "tree_at (store new_inventory) (root new_inventory)"
  by (simp add: new_inventory_def tree_null)

lemma insert_all_nil_or_single:
  "\<exists>t. insert_all new_inventory items = Some t \<and>
      (if items = [] then t = new_inventory else single_leaf t (last items))"
  using insert_all_single[OF tree_new_inventory, of items] by (cases "items = []") auto

lemma insert_all_tree:
  "\<exists>t. insert_all new_inventory items = Some t \<and> tree_at (store t) (root t)"
  using insert_all_nil_or_single[of items] tree_new_inventory single_leaf_tree
  by (cases "items = []") auto

lemma traverse_tree: "tree_at h node \<Longrightarrow> \<exists>vs. traverseInOrder h node = Some vs"
proof (induction rule: tree_at.induct)
  case (tree_null h)
  show ?case by (simp add: traverse_null)
next
  case (tree_node a h)
  then show ?case by (subst traverseInOrder.simps) auto
qed

lemmas run_insert = new_inventory_def insert_item_def insertNode_null insertNode_node
  new_BSTNode_def item_named_def

lemma bst_ordered_left_less:
  "bst_ordered h r \<Longrightarrow> reach h r a \<Longrightarrow> reach h (left (h ! a)) b \<Longrightarrow> key h b < key h a"
  unfolding bst_ordered_def by blast

lemma first_node_not_ordered_after_b_a_c:
  "\<not> bst_ordered [\<lparr>node_value = item_named ''b'' Common, left = Some 1, right = None\<rparr>,
            \<lparr>node_value = item_named ''a'' Rare, left = None, right = Some 2\<rparr>,
            \<lparr>node_value = item_named ''c'' Legendary, left = None, right = None\<rparr>] (Some 0)"
proof
  let ?h = "[\<lparr>node_value = item_named ''b'' Common, left = Some 1, right = None\<rparr>,
            \<lparr>node_value = item_named ''a'' Rare, left = None, right = Some 2\<rparr>,
            \<lparr>node_value = item_named ''c'' Legendary, left = None, right = None\<rparr>]"
  assume o: "bst_ordered ?h (Some 0)"
  have r2: "reach ?h (Some 2) 2" by (simp add: reach_here)
  have r1: "reach ?h (left (?h ! 0)) 2" using r2 by (simp, intro reach_right) simp_all
  have r0: "reach ?h (Some 0) 0" by (simp add: reach_here)
  from bst_ordered_left_less[OF o r0 r1] show False by (simp add: key_def item_named_def)
qed

section \<open>The claims\<close>

text \<open>
  C1. The claim is that \<open>search(name)\<close> finds a match exactly when some inserted item has
  that name. The code does not do so: after the inserts of an item named \<open>a\<close> and then
  of an item named \<open>b\<close> into a fresh inventory, \<open>searchItem("a")\<close> returns \<open>null\<close>.
\<close>

theorem search_misses_earlier_item:
  "Option.bind (insert_all new_inventory [item_named ''a'' Common, item_named ''b'' Rare])
     (\<lambda>t. searchItem t ''a'') = Some None"
  by (simp add: run_insert searchItem_def searchNode_node searchNode_null)

text \<open>
  C2. The claim is that a traversal after the inserts of \<open>b\<close>, \<open>a\<close>, \<open>b\<close> visits three
  items named \<open>a\<close>, \<open>b\<close>, \<open>b\<close>. The code does not do so: the traversal visits one node,
  the one that holds the item inserted last.
\<close>

theorem traversal_after_b_a_b_visits_one_node:
  "Option.bind (insert_all new_inventory [item_named ''b'' Common, item_named ''a'' Rare, item_named ''b'' Legendary])
     (\<lambda>t. map_option (items_of (store t)) (traverseInOrder (store t) (root t)))
   = Some [item_named ''b'' Legendary]"
  by (simp add: run_insert items_of_def traverse_null traverseInOrder.simps[of _ "Some _"])

text \<open>
  C3. On every well-formed tree, \<open>insert\<close> returns, makes the root the node it has just
  allocated, a node without children that holds the inserted item, and a traversal then
  visits that node alone. After any non-empty sequence of inserts into a fresh inventory
  the nodes reachable from the root are exactly one node, which holds the last item.
\<close>

theorem insert_replaces_root_by_new_leaf:
  "(tree_at (store t) (root t) \<longrightarrow>
      (\<exists>t'. insert_item t item = Some t'
          \<and> root t' = Some (length (store t))
          \<and> store t' ! length (store t) = new_BSTNode item
          \<and> traverseInOrder (store t') (root t') = Some [length (store t)]))
   \<and> (items \<noteq> [] \<longrightarrow>
      (\<exists>t' a. insert_all new_inventory items = Some t'
          \<and> traverseInOrder (store t') (root t') = Some [a]
          \<and> {b. reach (store t') (root t') b} = {a}
          \<and> store t' ! a = new_BSTNode (last items)))"
proof (intro conjI impI)
  assume wf: "tree_at (store t) (root t)"
  from insert_item_single[OF wf, of item] insert_item_tree[OF wf, of item]
  obtain t' where t': "insert_item t item = Some t'" "single_leaf t' item"
    "root t' = Some (length (store t))" "store t' ! length (store t) = new_BSTNode item"
    by auto
  from traverse_single[OF t'(2)] t'(3)
  have "traverseInOrder (store t') (root t') = Some [length (store t)]" by auto
  then show "\<exists>t'. insert_item t item = Some t'
          \<and> root t' = Some (length (store t))
          \<and> store t' ! length (store t) = new_BSTNode item
          \<and> traverseInOrder (store t') (root t') = Some [length (store t)]"
    using t' by blast
next
  assume ne: "items \<noteq> []"
  have "tree_at (store new_inventory) (root new_inventory)"
    by (simp add: new_inventory_def tree_null)
  from insert_all_single[OF this ne] obtain t' where
    t': "insert_all new_inventory items = Some t'" "single_leaf t' (last items)" by blast
  from traverse_single[OF t'(2)] obtain a where
    a: "traverseInOrder (store t') (root t') = Some [a]" "store t' ! a = new_BSTNode (last items)"
       "root t' = Some a" by blast
  have "{b. reach (store t') (root t') b} = {a}"
    using reach_single[OF t'(2) a(3)] by auto
  then show "\<exists>t' a. insert_all new_inventory items = Some t'
          \<and> traverseInOrder (store t') (root t') = Some [a]
          \<and> {b. reach (store t') (root t') b} = {a}
          \<and> store t' ! a = new_BSTNode (last items)"
    using t'(1) a by blast
qed

theorem insert_replaces_root_by_new_leaf_witness:
  "tree_at (store two_nodes) (root two_nodes)
   \<and> (\<exists>t'. insert_item two_nodes \<lparr>name = ''c'', rarity = Common\<rparr> = Some t'
          \<and> root t' = Some 2
          \<and> store t' ! 2 = new_BSTNode \<lparr>name = ''c'', rarity = Common\<rparr>
          \<and> traverseInOrder (store t') (root t') = Some [2])
   \<and> [\<lparr>name = ''b'', rarity = Common\<rparr>, \<lparr>name = ''a'', rarity = Common\<rparr>] \<noteq> []
   \<and> (\<exists>t' a. insert_all new_inventory [\<lparr>name = ''b'', rarity = Common\<rparr>, \<lparr>name = ''a'', rarity = Common\<rparr>] = Some t'
          \<and> traverseInOrder (store t') (root t') = Some [a]
          \<and> {b. reach (store t') (root t') b} = {a}
          \<and> store t' ! a = new_BSTNode \<lparr>name = ''a'', rarity = Common\<rparr>)"
proof -
  have wf: "tree_at (store two_nodes) (root two_nodes)"
    by (auto simp: two_nodes_def intro!: tree_at.intros)
  have len: "length (store two_nodes) = 2" by (simp add: two_nodes_def)
  show ?thesis
    using wf len
      insert_replaces_root_by_new_leaf[of two_nodes "\<lparr>name = ''c'', rarity = Common\<rparr>"
        "[\<lparr>name = ''b'', rarity = Common\<rparr>, \<lparr>name = ''a'', rarity = Common\<rparr>]"]
    by simp
qed

text \<open>
  C4. The claim is that, for every sequence of inserted items, the traversal visits each
  node once and the names in non-decreasing order. The code does not do so: the inserts
  of \<open>b\<close> and then of \<open>a\<close> into a fresh inventory create two nodes, and the traversal from
  the root visits one of them, the node of \<open>a\<close>; the node of \<open>b\<close> is never visited.
\<close>

theorem traversal_after_b_a_skips_first_node:
  "Option.bind (insert_all new_inventory [item_named ''b'' Common, item_named ''a'' Rare])
     (\<lambda>t. map_option (\<lambda>vs. (length (store t), vs, names_of (store t) vs))
            (traverseInOrder (store t) (root t)))
   = Some (2, [1], [''a''])"
  by (simp add: run_insert names_of_def traverse_null traverse_node)

text \<open>
  C5. After any sequence of enqueues and dequeues, a dequeue on a queue that holds an
  entry removes the first entry and returns its value, and the priority of that entry is
  at least the priority of every entry the queue holds.
\<close>

theorem dequeue_returns_maximum:
  "heap (run_ops ops) \<noteq> [] \<Longrightarrow>
     \<exists>e es. heap (run_ops ops) = e # es
        \<and> dequeue (run_ops ops) = (Some (entry_value e), (run_ops ops)\<lparr>heap := es\<rparr>)
        \<and> (\<forall>x \<in> set (heap (run_ops ops)). priority x \<le> priority e)"
proof -
  assume ne: "heap (run_ops ops) \<noteq> []"
  then obtain e es where c: "heap (run_ops ops) = e # es" by (cases "heap (run_ops ops)") auto
  have "descending (e # es)" using descending_run_ops[of ops] c by simp
  then have "\<forall>x \<in> set (e # es). priority x \<le> priority e" by (auto simp: descending_def)
  then show ?thesis using c by (simp add: dequeue_def)
qed

theorem dequeue_returns_maximum_witness:
  "heap (run_ops [Enqueue ''Defend Village'' 2, Enqueue ''Attack Orcs'' 1, Dequeue,
                  Enqueue ''Guard Gate'' 3, Enqueue ''Rest'' 2]) \<noteq> []
   \<and> dequeue (run_ops [Enqueue ''Defend Village'' 2, Enqueue ''Attack Orcs'' 1, Dequeue,
                  Enqueue ''Guard Gate'' 3, Enqueue ''Rest'' 2])
       = (Some ''Guard Gate'', \<lparr>heap = [\<lparr>entry_value = ''Rest'', priority = 2\<rparr>,
                                          \<lparr>entry_value = ''Attack Orcs'', priority = 1\<rparr>]\<rparr>)
   \<and> list_all (\<lambda>x. priority x \<le> 3)
        (heap (run_ops [Enqueue ''Defend Village'' 2, Enqueue ''Attack Orcs'' 1, Dequeue,
                  Enqueue ''Guard Gate'' 3, Enqueue ''Rest'' 2]))"
proof -
  have h: "heap (run_ops [Enqueue ''Defend Village'' 2, Enqueue ''Attack Orcs'' 1, Dequeue,
                  Enqueue ''Guard Gate'' 3, Enqueue ''Rest'' 2])
           = [\<lparr>entry_value = ''Guard Gate'', priority = 3\<rparr>, \<lparr>entry_value = ''Rest'', priority = 2\<rparr>,
              \<lparr>entry_value = ''Attack Orcs'', priority = 1\<rparr>]"
    by (simp add: run_ops_def new_queue_def enqueue_def dequeue_def sort_by_def by_priority_def)
  then have ne: "heap (run_ops [Enqueue ''Defend Village'' 2, Enqueue ''Attack Orcs'' 1, Dequeue,
                  Enqueue ''Guard Gate'' 3, Enqueue ''Rest'' 2]) \<noteq> []" by simp
  show ?thesis using dequeue_returns_maximum[OF ne] h by auto
qed

text \<open>
  C6. Ties leave in the order of their insertion. After any sequence of enqueues and
  dequeues, an enqueue puts the new entry behind every held entry whose priority is at
  least its own and in front of every entry of lower priority, and the held entries keep
  their order; after a sequence of enqueues alone, the entries of each priority stand in
  the array in the order of their enqueues. In the scenario of the specification the
  three dequeues return Defend Village, Guard Gate, Attack Orcs.
\<close>

theorem equal_priorities_leave_in_insertion_order:
  "heap (enqueue v p (run_ops ops))
      = filter (\<lambda>x. p \<le> priority x) (heap (run_ops ops)) @ [\<lparr>entry_value = v, priority = p\<rparr>]
        @ filter (\<lambda>x. priority x < p) (heap (run_ops ops))
   \<and> filter (\<lambda>x. p \<le> priority x) (heap (run_ops ops)) @ filter (\<lambda>x. priority x < p) (heap (run_ops ops))
      = heap (run_ops ops)
   \<and> filter (\<lambda>x. priority x = k) (heap (run_ops (enqueue_each xs)))
      = filter (\<lambda>x. priority x = k) (entries_of xs)
   \<and> (let q0 = enqueue ''Guard Gate'' 2 (enqueue ''Attack Orcs'' 1
                   (enqueue ''Defend Village'' 2 new_queue));
            (r1, q1) = dequeue q0;
            (r2, q2) = dequeue q1;
            (r3, q3) = dequeue q2
        in [r1, r2, r3]) = [Some ''Defend Village'', Some ''Guard Gate'', Some ''Attack Orcs'']"
proof (intro conjI)
  show "heap (enqueue v p (run_ops ops))
      = filter (\<lambda>x. p \<le> priority x) (heap (run_ops ops)) @ [\<lparr>entry_value = v, priority = p\<rparr>]
        @ filter (\<lambda>x. priority x < p) (heap (run_ops ops))"
    using heap_enqueue[OF descending_run_ops, of v p ops] by (simp add: placed_def)
  show "filter (\<lambda>x. p \<le> priority x) (heap (run_ops ops)) @ filter (\<lambda>x. priority x < p) (heap (run_ops ops))
      = heap (run_ops ops)"
    by (rule descending_filter_id[OF descending_run_ops])
  show "filter (\<lambda>x. priority x = k) (heap (run_ops (enqueue_each xs)))
      = filter (\<lambda>x. priority x = k) (entries_of xs)"
    by (rule ties_in_insertion_order)
  show "(let q0 = enqueue ''Guard Gate'' 2 (enqueue ''Attack Orcs'' 1
                   (enqueue ''Defend Village'' 2 new_queue));
            (r1, q1) = dequeue q0;
            (r2, q2) = dequeue q1;
            (r3, q3) = dequeue q2
        in [r1, r2, r3]) = [Some ''Defend Village'', Some ''Guard Gate'', Some ''Attack Orcs'']"
    by (simp add: enqueue_def dequeue_def new_queue_def sort_by_def by_priority_def)
qed

text \<open>
  C7. Absence is a result, not a fault. \<open>dequeue\<close> on a queue without entries, the fresh
  one among them, returns \<open>undefined\<close> and leaves the queue as it is; \<open>searchItem\<close> on the
  fresh inventory returns \<open>null\<close>. After any sequence of inserts, \<open>insert\<close>,
  \<open>traverseInOrder\<close> and \<open>searchItem\<close> return, and \<open>searchItem\<close> returns \<open>null\<close> when no
  node of the tree has the name. (\<open>enqueue\<close> and \<open>dequeue\<close> have no branch that fails.)
\<close>

theorem absence_is_a_sentinel:
  "dequeue new_queue = (None, new_queue)
   \<and> (heap q = [] \<longrightarrow> dequeue q = (None, q))
   \<and> searchItem new_inventory n = Some None
   \<and> (\<exists>t. insert_all new_inventory items = Some t
        \<and> (\<exists>t'. insert_item t item = Some t')
        \<and> (\<exists>vs. traverseInOrder (store t) (root t) = Some vs)
        \<and> (\<exists>r. searchItem t n = Some r
              \<and> ((\<forall>a. reach (store t) (root t) a \<longrightarrow> key (store t) a \<noteq> n) \<longrightarrow> r = None)))"
proof (intro conjI impI)
  show "dequeue new_queue = (None, new_queue)" by (simp add: dequeue_def new_queue_def)
  show "dequeue q = (None, q)" if "heap q = []" using that by (simp add: dequeue_def)
  show "searchItem new_inventory n = Some None"
    by (simp add: searchItem_def new_inventory_def searchNode_null)
  obtain t where t: "insert_all new_inventory items = Some t" "tree_at (store t) (root t)"
    using insert_all_tree[of items] by blast
  from insert_item_tree[OF t(2), of item] have i: "\<exists>t'. insert_item t item = Some t'" by blast
  from traverse_tree[OF t(2)] have tr: "\<exists>vs. traverseInOrder (store t) (root t) = Some vs" .
  from searchNode_tree[OF t(2), of n] obtain r where
    r: "searchNode (store t) (root t) n = Some r" by blast
  have "(\<forall>a. reach (store t) (root t) a \<longrightarrow> key (store t) a \<noteq> n) \<longrightarrow> r = None"
    using searchNode_absent[OF t(2), of n] r by auto
  then have "\<exists>r. searchItem t n = Some r
              \<and> ((\<forall>a. reach (store t) (root t) a \<longrightarrow> key (store t) a \<noteq> n) \<longrightarrow> r = None)"
    using r by (auto simp: searchItem_def)
  then show "\<exists>t. insert_all new_inventory items = Some t
        \<and> (\<exists>t'. insert_item t item = Some t')
        \<and> (\<exists>vs. traverseInOrder (store t) (root t) = Some vs)
        \<and> (\<exists>r. searchItem t n = Some r
              \<and> ((\<forall>a. reach (store t) (root t) a \<longrightarrow> key (store t) a \<noteq> n) \<longrightarrow> r = None))"
    using t(1) i tr by blast
qed

theorem absence_is_a_sentinel_witness:
  "heap (new_queue :: string PriorityQueue) = []
   \<and> dequeue (new_queue :: string PriorityQueue) = (None, new_queue)
   \<and> searchItem new_inventory ''a'' = Some None
   \<and> (\<exists>t. insert_all new_inventory [item_named ''a'' Common, item_named ''b'' Rare] = Some t
        \<and> \<not> (\<exists>a. reach (store t) (root t) a \<and> key (store t) a = ''a'')
        \<and> searchItem t ''a'' = Some None)"
proof -
  let ?T = "\<lparr>store = [\<lparr>node_value = item_named ''a'' Common, left = None, right = Some 1\<rparr>,
                         \<lparr>node_value = item_named ''b'' Rare, left = None, right = None\<rparr>],
                root = Some 1\<rparr>"
  have e: "insert_all new_inventory [item_named ''a'' Common, item_named ''b'' Rare] = Some ?T"
    by (simp add: run_insert)
  have s: "single_leaf ?T (item_named ''b'' Rare)" by (simp add: single_leaf_def new_BSTNode_def)
  have nr: "\<forall>a. reach (store ?T) (root ?T) a \<longrightarrow> key (store ?T) a \<noteq> ''a''"
    using reach_single[OF s, of 1] by (auto simp: key_def item_named_def)
  have q: "heap (new_queue :: string PriorityQueue) = []" by (simp add: new_queue_def)
  show ?thesis
    using absence_is_a_sentinel[of "new_queue :: string PriorityQueue" "''a''"
        "[item_named ''a'' Common, item_named ''b'' Rare]" "item_named ''c'' Rare"] e nr q
    by auto
qed


text \<open>
  C9. The claim is the round trip: the items of an in-order traversal, inserted in that
  order into a fresh inventory, give a tree with the same in-order traversal. The code
  does not do so: the tree with \<open>b\<close> at the root and \<open>a\<close> to its left has the traversal
  \<open>a\<close>, \<open>b\<close>, and after the inserts of \<open>a\<close> and \<open>b\<close> into a fresh inventory the traversal
  visits the item \<open>b\<close> alone.
\<close>

theorem round_trip_of_two_nodes_keeps_last_item:
  "map_option (items_of (store two_nodes)) (traverseInOrder (store two_nodes) (root two_nodes))
     = Some [item_named ''a'' Common, item_named ''b'' Rare]
   \<and> Option.bind (insert_all new_inventory [item_named ''a'' Common, item_named ''b'' Rare])
       (\<lambda>t. map_option (items_of (store t)) (traverseInOrder (store t) (root t)))
     = Some [item_named ''b'' Rare]"
  by (simp add: two_nodes_def run_insert items_of_def traverse_null traverse_node)

text \<open>
  C10. After any sequence of enqueues and dequeues the entry array is in non-increasing
  order of priority, and it is so again after one more enqueue, which appends and sorts,
  and after one more dequeue, which removes the first entry and returns its value.
\<close>

theorem entry_array_stays_sorted:
  "descending (heap (run_ops ops))
   \<and> descending (heap (enqueue v p (run_ops ops)))
   \<and> descending (heap (snd (dequeue (run_ops ops))))
   \<and> heap (enqueue v p (run_ops ops))
        = sort_by by_priority (heap (run_ops ops) @ [\<lparr>entry_value = v, priority = p\<rparr>])
   \<and> heap (snd (dequeue (run_ops ops))) = tl (heap (run_ops ops))
   \<and> fst (dequeue (run_ops ops))
        = (case heap (run_ops ops) of [] \<Rightarrow> None | e # es \<Rightarrow> Some (entry_value e))"
proof -
  have d: "descending (heap (run_ops ops))" by (rule descending_run_ops)
  have e: "descending (heap (enqueue v p (run_ops ops)))"
    using descending_apply_op[OF d, of "Enqueue v p"] by simp
  have q: "descending (heap (snd (dequeue (run_ops ops))))"
    using descending_apply_op[OF d, of Dequeue] by simp
  show ?thesis using d e q
    by (cases "heap (run_ops ops)") (simp_all add: enqueue_def dequeue_def)
qed

end
